theory Spec2Isabelle
  imports Main "HOL-Library.AList" "HOL-Library.Product_Lexorder"
begin

section \<open>Errors\<close>

text \<open>
  The exceptions of \<^verbatim>\<open>toil/job.py\<close> that the modelled functions raise, as values.
  A function that can raise returns \<open>error + 'a\<close>, with \<open>Inl\<close> for the exception.
\<close>

datatype error =
    JobException
  | JobGraphDeadlockException
  | CacheError
  | CacheInvalidSrcError
  | RuntimeError
  | AssertionError
  | IndexError
  | KeyError
  | TypeError
  | UnboundLocalError
  | IOError
  | OSErrorENOENT
  | OSErrorEEXIST
  | NoSuchFileException
  | AttributeError

section \<open>The job graph\<close>

text \<open>
  A \<^verbatim>\<open>Job\<close> object holds three ordered successor lists, the set of its direct
  predecessors and the \<^verbatim>\<open>checkpoint\<close> flag. Jobs reference each other, so the
  objects live in a heap: a list of jobs, a job's handle being its position. The
  predecessor set is kept as a duplicate-free list; its order stands for the order
  in which Python happens to iterate over the set.
\<close>

record job =
  children :: "nat list"
  followOns :: "nat list"
  services :: "nat list"
  directPredecessors :: "nat list"
  checkpoint :: bool

type_synonym graph = "job list"

definition newJob :: "bool \<Rightarrow> job" where
  "newJob cp = \<lparr>children = [], followOns = [], services = [],
                directPredecessors = [], checkpoint = cp\<rparr>"

text \<open>\<^verbatim>\<open>Job._addPredecessor\<close>: raises when the job already is a predecessor.\<close>

definition addPredecessor :: "graph \<Rightarrow> nat \<Rightarrow> nat \<Rightarrow> error + graph" where
  "addPredecessor g self predecessorJob =
     (if predecessorJob \<in> set (directPredecessors (g ! self)) then Inl RuntimeError
      else Inr (g[self := (g ! self)\<lparr>directPredecessors :=
                  directPredecessors (g ! self) @ [predecessorJob]\<rparr>]))"

text \<open>
  \<^verbatim>\<open>Job.addChild\<close> and \<^verbatim>\<open>Job.addFollowOn\<close> append to the successor list first
  and record the predecessor afterwards.
\<close>

definition addChild :: "graph \<Rightarrow> nat \<Rightarrow> nat \<Rightarrow> error + graph" where
  "addChild g self childJob =
     (let g1 = g[self := (g ! self)\<lparr>children := children (g ! self) @ [childJob]\<rparr>]
      in addPredecessor g1 childJob self)"

definition addFollowOn :: "graph \<Rightarrow> nat \<Rightarrow> nat \<Rightarrow> error + graph" where
  "addFollowOn g self followOnJob =
     (let g1 = g[self := (g ! self)\<lparr>followOns := followOns (g ! self) @ [followOnJob]\<rparr>]
      in addPredecessor g1 followOnJob self)"

text \<open>A sequence of authoring calls, stopping at the first exception.\<close>

datatype edgeOp = AddChild nat nat | AddFollowOn nat nat

fun applyEdgeOp :: "graph \<Rightarrow> edgeOp \<Rightarrow> error + graph" where
  "applyEdgeOp g (AddChild a b) = addChild g a b"
| "applyEdgeOp g (AddFollowOn a b) = addFollowOn g a b"

fun build :: "graph \<Rightarrow> edgeOp list \<Rightarrow> error + graph" where
  "build g [] = Inr g"
| "build g (x # xs) = (case applyEdgeOp g x of Inl e \<Rightarrow> Inl e | Inr g' \<Rightarrow> build g' xs)"

subsection \<open>Recursive traversals\<close>

text \<open>
  The traversals of the source are recursive procedures that update sets shared by
  all calls. They are modelled with the shared sets passed through and a bound on
  the recursion depth: \<open>None\<close> means that the bound was reached. A loop over a
  list of jobs that calls such a procedure for every element is \<open>foldOpt\<close>.
\<close>

fun foldOpt :: "('a \<Rightarrow> 's \<Rightarrow> 's option) \<Rightarrow> 'a list \<Rightarrow> 's \<Rightarrow> 's option" where
  "foldOpt f [] s = Some s"
| "foldOpt f (x # xs) s = (case f x s of None \<Rightarrow> None | Some s' \<Rightarrow> foldOpt f xs s')"

text \<open>
  \<^verbatim>\<open>getRoots\<close>, the local function of \<^verbatim>\<open>Job.getRootJobs\<close>. The state is the
  pair \<open>(roots, visited)\<close>.
\<close>

primrec getRoots :: "nat \<Rightarrow> graph \<Rightarrow> nat \<Rightarrow> nat set \<times> nat set \<Rightarrow> (nat set \<times> nat set) option" where
  "getRoots 0 g j st = None"
| "getRoots (Suc n) g j st =
     (if j \<notin> snd st then
        (case (if length (directPredecessors (g ! j)) > 0
               then foldOpt (getRoots n g) (directPredecessors (g ! j)) (fst st, insert j (snd st))
               else Some (insert j (fst st), insert j (snd st))) of
           None \<Rightarrow> None
         | Some st' \<Rightarrow> foldOpt (getRoots n g) (children (g ! j) @ followOns (g ! j)) st')
      else Some st)"

definition getRootJobs :: "nat \<Rightarrow> graph \<Rightarrow> nat \<Rightarrow> nat set option" where
  "getRootJobs fuel g self = map_option fst (getRoots fuel g self ({}, {}))"

text \<open>\<^verbatim>\<open>Job.checkJobGraphConnected\<close>.\<close>

definition checkJobGraphConnected :: "nat \<Rightarrow> graph \<Rightarrow> nat \<Rightarrow> (error + unit) option" where
  "checkJobGraphConnected fuel g self =
     (case getRootJobs fuel g self of
        None \<Rightarrow> None
      | Some rootJobs \<Rightarrow>
          if card rootJobs \<noteq> 1 then Some (Inl JobGraphDeadlockException) else Some (Inr ()))"

text \<open>\<^verbatim>\<open>Job._dfs\<close>: adds the job and everything reachable from it to \<open>visited\<close>.\<close>

primrec dfs :: "nat \<Rightarrow> graph \<Rightarrow> nat \<Rightarrow> nat set \<Rightarrow> nat set option" where
  "dfs 0 g j visited = None"
| "dfs (Suc n) g j visited =
     (if j \<notin> visited
      then foldOpt (dfs n g) (children (g ! j) @ followOns (g ! j)) (insert j visited)
      else Some visited)"

text \<open>
  The same loop for a procedure that can raise: the first exception ends the loop.
\<close>

fun foldErr :: "('a \<Rightarrow> 's \<Rightarrow> (error + 's) option) \<Rightarrow> 'a list \<Rightarrow> 's \<Rightarrow> (error + 's) option" where
  "foldErr f [] s = Some (Inr s)"
| "foldErr f (x # xs) s =
     (case f x s of
        None \<Rightarrow> None
      | Some (Inl e) \<Rightarrow> Some (Inl e)
      | Some (Inr s') \<Rightarrow> foldErr f xs s')"

text \<open>
  \<^verbatim>\<open>Job._checkJobGraphAcylicDFS\<close>. The state is \<open>(stack, visited)\<close>;
  \<open>extraEdges\<close> is the dictionary of implied edges. The job appended to the stack
  before raising only serves the message and is not kept.
\<close>

primrec checkJobGraphAcylicDFS ::
  "nat \<Rightarrow> graph \<Rightarrow> (nat \<rightharpoonup> nat list) \<Rightarrow> nat \<Rightarrow> nat list \<times> nat set
     \<Rightarrow> (error + nat list \<times> nat set) option" where
  "checkJobGraphAcylicDFS 0 g extraEdges self st = None"
| "checkJobGraphAcylicDFS (Suc n) g extraEdges self st =
     (case (if self \<notin> snd st then
              (case extraEdges self of
                 None \<Rightarrow> Some (Inl KeyError)
               | Some extra \<Rightarrow>
                   (case foldErr (checkJobGraphAcylicDFS n g extraEdges)
                           (children (g ! self) @ followOns (g ! self) @ extra)
                           (fst st @ [self], insert self (snd st)) of
                      None \<Rightarrow> None
                    | Some (Inl e) \<Rightarrow> Some (Inl e)
                    | Some (Inr st') \<Rightarrow>
                        if fst st' = [] then Some (Inl IndexError)
                        else if last (fst st') \<noteq> self then Some (Inl AssertionError)
                        else Some (Inr (butlast (fst st'), snd st'))))
            else Some (Inr st)) of
        None \<Rightarrow> None
      | Some (Inl e) \<Rightarrow> Some (Inl e)
      | Some (Inr st1) \<Rightarrow>
          if self \<in> set (fst st1) then Some (Inl JobGraphDeadlockException)
          else Some (Inr st1))"

text \<open>
  \<^verbatim>\<open>Job._getImpliedEdges\<close>. Python iterates over the sets \<open>roots\<close>,
  \<open>nodes\<close> and \<open>reacheable\<close> in an order of its own; the model takes the
  ascending order of the handles.
\<close>

definition addImpliedEdge :: "nat list \<Rightarrow> nat \<Rightarrow> (nat \<rightharpoonup> nat list) \<Rightarrow> (error + (nat \<rightharpoonup> nat list)) option" where
  "addImpliedEdge fos descendant extraEdges =
     (case extraEdges descendant of
        None \<Rightarrow> Some (Inl KeyError)
      | Some es \<Rightarrow> Some (Inr (extraEdges(descendant \<mapsto> es @ fos))))"

definition impliedEdgesOfJob :: "nat \<Rightarrow> graph \<Rightarrow> nat \<Rightarrow> (nat \<rightharpoonup> nat list) \<Rightarrow> (error + (nat \<rightharpoonup> nat list)) option" where
  "impliedEdgesOfJob fuel g j extraEdges =
     (if length (followOns (g ! j)) > 0 then
        (case foldOpt (dfs fuel g) (children (g ! j)) {} of
           None \<Rightarrow> None
         | Some reacheable \<Rightarrow>
             foldErr (addImpliedEdge (followOns (g ! j))) (sorted_list_of_set reacheable) extraEdges)
      else Some (Inr extraEdges))"

definition getImpliedEdges :: "nat \<Rightarrow> graph \<Rightarrow> nat set \<Rightarrow> (error + (nat \<rightharpoonup> nat list)) option" where
  "getImpliedEdges fuel g roots =
     (case foldOpt (dfs fuel g) (sorted_list_of_set roots) {} of
        None \<Rightarrow> None
      | Some nodes \<Rightarrow>
          foldErr (impliedEdgesOfJob fuel g) (sorted_list_of_set nodes)
            (\<lambda>n. if n \<in> nodes then Some [] else None))"

text \<open>\<^verbatim>\<open>Job.checkJobGraphAcylic\<close>: every root starts with an empty stack.\<close>

definition checkJobGraphAcylic :: "nat \<Rightarrow> graph \<Rightarrow> nat \<Rightarrow> (error + unit) option" where
  "checkJobGraphAcylic fuel g self =
     (case getRootJobs fuel g self of
        None \<Rightarrow> None
      | Some roots \<Rightarrow>
          if card roots = 0 then Some (Inl JobGraphDeadlockException)
          else
            (case getImpliedEdges fuel g roots of
               None \<Rightarrow> None
             | Some (Inl e) \<Rightarrow> Some (Inl e)
             | Some (Inr extraEdges) \<Rightarrow>
                 (case foldErr (\<lambda>root visited.
                           map_option (map_sum id snd)
                             (checkJobGraphAcylicDFS fuel g extraEdges root ([], visited)))
                         (sorted_list_of_set roots) {} of
                    None \<Rightarrow> None
                  | Some (Inl e) \<Rightarrow> Some (Inl e)
                  | Some (Inr visited) \<Rightarrow> Some (Inr ()))))"

text \<open>
  \<^verbatim>\<open>Job.checkNewCheckpointsAreLeafVertices\<close>. The loop runs over the checkpoint
  jobs of the component; the test on the three successor lists is the source's.
\<close>

fun checkpointLoop :: "graph \<Rightarrow> nat set \<Rightarrow> nat list \<Rightarrow> error + unit" where
  "checkpointLoop g roots [] = Inr ()"
| "checkpointLoop g roots (y # ys) =
     (if y \<notin> roots then
        (if length (children (g ! y)) \<noteq> 0 \<and> length (followOns (g ! y)) \<noteq> 0
            \<and> length (services (g ! y)) \<noteq> 0
         then Inl JobGraphDeadlockException
         else checkpointLoop g roots ys)
      else checkpointLoop g roots ys)"

definition checkNewCheckpointsAreLeafVertices :: "nat \<Rightarrow> graph \<Rightarrow> nat \<Rightarrow> (error + unit) option" where
  "checkNewCheckpointsAreLeafVertices fuel g self =
     (case getRootJobs fuel g self of
        None \<Rightarrow> None
      | Some roots \<Rightarrow>
          (case foldOpt (dfs fuel g) (sorted_list_of_set roots) {} of
             None \<Rightarrow> None
           | Some jobs \<Rightarrow>
               Some (checkpointLoop g roots
                       (filter (\<lambda>x. checkpoint (g ! x)) (sorted_list_of_set jobs)))))"

text \<open>\<^verbatim>\<open>Job.checkJobGraphForDeadlocks\<close>: the three checks in the source's order.\<close>

definition checkJobGraphForDeadlocks :: "nat \<Rightarrow> graph \<Rightarrow> nat \<Rightarrow> (error + unit) option" where
  "checkJobGraphForDeadlocks fuel g self =
     (case checkJobGraphConnected fuel g self of
        None \<Rightarrow> None
      | Some (Inl e) \<Rightarrow> Some (Inl e)
      | Some (Inr _) \<Rightarrow>
          (case checkJobGraphAcylic fuel g self of
             None \<Rightarrow> None
           | Some (Inl e) \<Rightarrow> Some (Inl e)
           | Some (Inr _) \<Rightarrow> checkNewCheckpointsAreLeafVertices fuel g self))"

text \<open>
  \<^verbatim>\<open>Job.getTopologicalOrderingOfJobs\<close> with its local function
  \<^verbatim>\<open>getRunOrder\<close>. The state is \<open>(ordering, visited)\<close>.
\<close>

primrec getRunOrder :: "nat \<Rightarrow> graph \<Rightarrow> nat \<Rightarrow> nat list \<times> nat set \<Rightarrow> (nat list \<times> nat set) option" where
  "getRunOrder 0 g j st = None"
| "getRunOrder (Suc n) g j st =
     (if \<exists>p \<in> set (directPredecessors (g ! j)). p \<notin> snd st then Some st
      else if j \<notin> snd st
      then foldOpt (getRunOrder n g) (children (g ! j) @ followOns (g ! j))
             (fst st @ [j], insert j (snd st))
      else Some st)"

definition getTopologicalOrderingOfJobs :: "nat \<Rightarrow> graph \<Rightarrow> nat \<Rightarrow> nat list option" where
  "getTopologicalOrderingOfJobs fuel g self = map_option fst (getRunOrder fuel g self ([], {}))"

subsection \<open>Concrete job graphs\<close>

text \<open>
  Four jobs \<open>R = 0\<close>, \<open>X = 1\<close>, \<open>Y = 2\<close>, \<open>Z = 3\<close> wired by
  \<^verbatim>\<open>R.addChild(X); Y.addChild(X); Y.addChild(Z); Z.addChild(Y)\<close>: the jobs \<open>Y\<close>
  and \<open>Z\<close> form a cycle that no path from the root \<open>R\<close> enters.
\<close>

definition hiddenCycleOps :: "edgeOp list" where
  "hiddenCycleOps = [AddChild 0 1, AddChild 2 1, AddChild 2 3, AddChild 3 2]"

definition hiddenCycleGraph :: graph where
  "hiddenCycleGraph =
     [\<lparr>children = [1], followOns = [], services = [], directPredecessors = [], checkpoint = False\<rparr>,
      \<lparr>children = [], followOns = [], services = [], directPredecessors = [0, 2], checkpoint = False\<rparr>,
      \<lparr>children = [1, 3], followOns = [], services = [], directPredecessors = [3], checkpoint = False\<rparr>,
      \<lparr>children = [2], followOns = [], services = [], directPredecessors = [2], checkpoint = False\<rparr>]"

text \<open>
  The graph \<^verbatim>\<open>A.addChild(B); A.addChild(C); B.addFollowOn(C); C.addChild(B)\<close> with
  \<open>A = 0\<close>, \<open>B = 1\<close>, \<open>C = 2\<close>.
\<close>

definition followOnCycleOps :: "edgeOp list" where
  "followOnCycleOps = [AddChild 0 1, AddChild 0 2, AddFollowOn 1 2, AddChild 2 1]"

definition followOnCycleGraph :: graph where
  "followOnCycleGraph =
     [\<lparr>children = [1, 2], followOns = [], services = [], directPredecessors = [], checkpoint = False\<rparr>,
      \<lparr>children = [], followOns = [2], services = [], directPredecessors = [0, 2], checkpoint = False\<rparr>,
      \<lparr>children = [1], followOns = [], services = [], directPredecessors = [0, 1], checkpoint = False\<rparr>]"

text \<open>The two-job cycle \<^verbatim>\<open>A.addChild(B); B.addChild(A)\<close>.\<close>

definition twoCycleOps :: "edgeOp list" where
  "twoCycleOps = [AddChild 0 1, AddChild 1 0]"

definition twoCycleGraph :: graph where
  "twoCycleGraph =
     [\<lparr>children = [1], followOns = [], services = [], directPredecessors = [1], checkpoint = False\<rparr>,
      \<lparr>children = [0], followOns = [], services = [], directPredecessors = [0], checkpoint = False\<rparr>]"

text \<open>
  A root \<open>0\<close> with a child \<open>1\<close> that has \<^verbatim>\<open>checkpoint=True\<close> and a child
  \<open>2\<close> of its own: \<^verbatim>\<open>R.addChild(Y); Y.addChild(Z)\<close>.
\<close>

definition checkpointOps :: "edgeOp list" where
  "checkpointOps = [AddChild 0 1, AddChild 1 2]"

definition checkpointGraph :: graph where
  "checkpointGraph =
     [\<lparr>children = [1], followOns = [], services = [], directPredecessors = [], checkpoint = False\<rparr>,
      \<lparr>children = [2], followOns = [], services = [], directPredecessors = [0], checkpoint = True\<rparr>,
      \<lparr>children = [], followOns = [], services = [], directPredecessors = [1], checkpoint = False\<rparr>]"

subsection \<open>Graph notions used in the statements\<close>

text \<open>
  The successor edges of the graph (child and follow-on edges), the connected
  component of a job (jobs linked by successor edges in either direction), and the
  jobs without predecessors.
\<close>

definition succEdges :: "graph \<Rightarrow> (nat \<times> nat) set" where
  "succEdges g = {(a, b). a < length g \<and> b \<in> set (children (g ! a) @ followOns (g ! a))}"

definition component :: "graph \<Rightarrow> nat \<Rightarrow> nat set" where
  "component g self = (succEdges g \<union> (succEdges g)\<inverse>)\<^sup>* `` {self}"

definition isRoot :: "graph \<Rightarrow> nat \<Rightarrow> bool" where
  "isRoot g j \<longleftrightarrow> directPredecessors (g ! j) = []"

text \<open>
  A heap is closed when every handle stored in a job denotes a job of the heap, and
  consistent when the predecessor sets mirror the successor lists, as
  \<^verbatim>\<open>addChild\<close> and \<^verbatim>\<open>addFollowOn\<close> keep them.
\<close>

definition closed :: "graph \<Rightarrow> bool" where
  "closed g \<longleftrightarrow>
     (\<forall>j < length g. \<forall>k \<in> set (children (g ! j) @ followOns (g ! j) @ directPredecessors (g ! j)).
        k < length g)"

definition consistent :: "graph \<Rightarrow> bool" where
  "consistent g \<longleftrightarrow>
     (\<forall>j < length g. \<forall>p < length g.
        p \<in> set (directPredecessors (g ! j)) \<longleftrightarrow> j \<in> set (children (g ! p) @ followOns (g ! p)))"

text \<open>
  The lists a call of \<^verbatim>\<open>getRoots\<close> walks from a job, the relation they induce, and
  the relation between the visited set before and after a call: it grows, and every
  job added has all the jobs of its lists in the set.
\<close>

definition nbrs :: "graph \<Rightarrow> nat \<Rightarrow> nat list" where
  "nbrs g j = directPredecessors (g ! j) @ children (g ! j) @ followOns (g ! j)"

definition links :: "graph \<Rightarrow> (nat \<times> nat) set" where
  "links g = {(j, k). k \<in> set (nbrs g j)}"

definition closedStep :: "graph \<Rightarrow> nat set \<Rightarrow> nat set \<Rightarrow> bool" where
  "closedStep g vis vis' \<longleftrightarrow> vis \<subseteq> vis' \<and> (\<forall>v \<in> vis' - vis. set (nbrs g v) \<subseteq> vis')"

text \<open>An authoring call whose two jobs are jobs of a heap of \<open>n\<close> jobs.\<close>

fun edgeOpInside :: "nat \<Rightarrow> edgeOp \<Rightarrow> bool" where
  "edgeOpInside n (AddChild a b) \<longleftrightarrow> a < n \<and> b < n"
| "edgeOpInside n (AddFollowOn a b) \<longleftrightarrow> a < n \<and> b < n"

section \<open>Services\<close>

text \<open>
  A \<^verbatim>\<open>Job.Service\<close> object: the list of its child services and the flag
  \<^verbatim>\<open>_hasParent\<close>. \<^verbatim>\<open>Service._addChild\<close> assigns to an attribute named
  \<^verbatim>\<open>_parent\<close>, which no other code reads; it is the field \<open>parentAttr\<close>, absent
  (\<open>None\<close>) until assigned. Every \<^verbatim>\<open>ServiceJob\<close> wraps one service and only its
  \<^verbatim>\<open>service\<close> attribute is looked at here, so a list of service jobs is the list
  of the handles of the wrapped services; \<open>services\<close> of a job is such a list.
\<close>

record service =
  childServices :: "nat list"
  hasParent :: bool
  parentAttr :: "bool option"

definition newService :: service where
  "newService = \<lparr>childServices = [], hasParent = False, parentAttr = None\<rparr>"

record authoring =
  jobs :: graph
  svcs :: "service list"

text \<open>A loop that returns \<^verbatim>\<open>True\<close> at the first element for which the test holds.\<close>

fun anyOpt :: "('a \<Rightarrow> bool option) \<Rightarrow> 'a list \<Rightarrow> bool option" where
  "anyOpt f [] = Some False"
| "anyOpt f (x # xs) =
     (case f x of None \<Rightarrow> None | Some True \<Rightarrow> Some True | Some False \<Rightarrow> anyOpt f xs)"

text \<open>
  The local function \<^verbatim>\<open>check\<close> of \<^verbatim>\<open>Job.addService\<close>: a depth-first search of
  the service forest, with the bound on the recursion depth.
\<close>

primrec checkServices :: "nat \<Rightarrow> service list \<Rightarrow> nat \<Rightarrow> nat list \<Rightarrow> bool option" where
  "checkServices 0 ss parentService servicesL = None"
| "checkServices (Suc n) ss parentService servicesL =
     anyOpt (\<lambda>jS. if jS = parentService then Some True
                   else checkServices n ss parentService (childServices (ss ! jS)))
       servicesL"

text \<open>\<^verbatim>\<open>Job.Service._addChild\<close>.\<close>

definition service_addChild :: "service list \<Rightarrow> nat \<Rightarrow> nat \<Rightarrow> error + service list" where
  "service_addChild ss self s =
     (if hasParent (ss ! s) then Inl JobException
      else
        (let ss1 = ss[s := (ss ! s)\<lparr>parentAttr := Some True\<rparr>]
         in Inr (ss1[self := (ss1 ! self)\<lparr>childServices := childServices (ss1 ! self) @ [s]\<rparr>])))"

text \<open>\<^verbatim>\<open>Job.addService\<close>. The promise it returns is not part of the state.\<close>

definition addService :: "nat \<Rightarrow> authoring \<Rightarrow> nat \<Rightarrow> nat \<Rightarrow> nat option \<Rightarrow> (error + authoring) option" where
  "addService fuel st self s parentService =
     (case parentService of
        Some p \<Rightarrow>
          (case checkServices fuel (svcs st) p (services (jobs st ! self)) of
             None \<Rightarrow> None
           | Some False \<Rightarrow> Some (Inl JobException)
           | Some True \<Rightarrow>
               (case service_addChild (svcs st) p s of
                  Inl e \<Rightarrow> Some (Inl e)
                | Inr ss \<Rightarrow> Some (Inr (st\<lparr>svcs := ss\<rparr>))))
      | None \<Rightarrow>
          if hasParent (svcs st ! s) then Some (Inl JobException)
          else Some (Inr (st\<lparr>svcs := (svcs st)[s := (svcs st ! s)\<lparr>hasParent := True\<rparr>],
                             jobs := (jobs st)[self := (jobs st ! self)\<lparr>services :=
                                        services (jobs st ! self) @ [s]\<rparr>]\<rparr>)))"

text \<open>One job and two services \<open>s = 0\<close> and \<open>t = 1\<close>, nothing attached yet.\<close>

definition authoring0 :: authoring where
  "authoring0 = \<lparr>jobs = [newJob False], svcs = [newService, newService]\<rparr>"

text \<open>A sequence of \<^verbatim>\<open>addService\<close> calls \<open>(job, service, parentService)\<close>.\<close>

fun addServices :: "nat \<Rightarrow> authoring \<Rightarrow> (nat \<times> nat \<times> nat option) list \<Rightarrow> (error + authoring) option" where
  "addServices fuel st [] = Some (Inr st)"
| "addServices fuel st ((j, s, p) # cs) =
     (case addService fuel st j s p of
        None \<Rightarrow> None
      | Some (Inl e) \<Rightarrow> Some (Inl e)
      | Some (Inr st') \<Rightarrow> addServices fuel st' cs)"

section \<open>The successor stack of a job wrapper\<close>

text \<open>
  Of a \<^verbatim>\<open>JobWrapper\<close> the serialisation touches the command and the stack of
  successor batches. A batch is a list of successor tuples, whose type is left open.
\<close>

record 'a jobWrapper =
  command :: "string option"
  stack :: "'a list list"

text \<open>
  \<^verbatim>\<open>Job._makeJobWrappers\<close> appends one batch for the follow-ons and then one for the
  children of the job; the tuples are made from the wrappers the job store creates and
  are parameters here.
\<close>

definition makeJobWrappers :: "'a jobWrapper \<Rightarrow> 'a list \<Rightarrow> 'a list \<Rightarrow> 'a jobWrapper" where
  "makeJobWrappers w followOnTuples childTuples =
     w\<lparr>stack := (stack w @ [followOnTuples]) @ [childTuples]\<rparr>"

text \<open>
  \<^verbatim>\<open>Job._serialiseExistingJob\<close> after \<^verbatim>\<open>_serialiseJobGraph\<close> has returned: the
  command is dropped and the last four batches are merged. \<open>stack[-k]\<close> is
  \<open>stack ! (length stack - k)\<close>.
\<close>

definition serialiseExistingJob :: "'a jobWrapper \<Rightarrow> error + 'a jobWrapper" where
  "serialiseExistingJob w0 =
     (let w = w0\<lparr>command := None\<rparr>; n = length (stack w) in
      if \<not> n \<ge> 4 then Inl AssertionError
      else
        (let combinedChildren = stack w ! (n - 1) @ stack w ! (n - 3);
             combinedFollowOns = stack w ! (n - 2) @ stack w ! (n - 4);
             w1 = w\<lparr>stack := take (n - 4) (stack w)\<rparr>;
             w2 = (if length combinedFollowOns > 0
                   then w1\<lparr>stack := stack w1 @ [combinedFollowOns]\<rparr> else w1);
             w3 = (if length combinedChildren > 0
                   then w2\<lparr>stack := stack w2 @ [combinedChildren]\<rparr> else w2)
         in Inr w3))"

section \<open>The commit of a job\<close>

text \<open>
  \<^verbatim>\<open>FileStore._updateJobWhenDone\<close> starts a thread that runs the local function
  \<^verbatim>\<open>asyncUpdate\<close>. The calls that function makes on the queue, the writer threads,
  the block function and the job store are recorded as a trace of events. What the
  surroundings decide is a parameter: whether the block function raises, and whether
  the terminate event is set when it is tested.
\<close>

datatype event =
    QueuePutNone
  | ThreadJoin nat
  | InputBlockFnCalled
  | InputBlockFnReturned
  | JobStoreUpdate "nat list"
  | JobStoreDelete nat
  | JobStoreDeleteFile nat
  | TerminateEventSet
  | UpdateSemaphoreRelease

record commitInput =
  workers :: nat
  stagedFiles :: "nat list"
  stagedJobs :: "nat list"
  blockFnRaises :: bool
  terminateIsSet :: bool

text \<open>
  The argument of \<open>JobStoreUpdate\<close> is the value of \<^verbatim>\<open>jobWrapper.filesToDelete\<close>
  at the update. An exception leaves through the \<^verbatim>\<open>except\<close> clause, which sets the
  terminate event, and every path ends with the release of the semaphore.
\<close>

definition asyncUpdate :: "commitInput \<Rightarrow> event list \<times> (error + unit)" where
  "asyncUpdate c =
     (let t1 = replicate (workers c) QueuePutNone @ map ThreadJoin [0 ..< workers c]
               @ [InputBlockFnCalled] in
      if blockFnRaises c then (t1 @ [TerminateEventSet, UpdateSemaphoreRelease], Inl RuntimeError)
      else
        (let t2 = t1 @ [InputBlockFnReturned] in
         if terminateIsSet c then (t2 @ [TerminateEventSet, UpdateSemaphoreRelease], Inl RuntimeError)
         else
           (let t3 = t2 @ [JobStoreUpdate (stagedFiles c)]
                     @ map JobStoreDelete (stagedJobs c)
                     @ map JobStoreDeleteFile (stagedFiles c);
                t4 = (if length (stagedFiles c) > 0 then t3 @ [JobStoreUpdate []] else t3)
            in (t4 @ [UpdateSemaphoreRelease], Inr ()))))"

fun isUpdate :: "event \<Rightarrow> bool" where
  "isUpdate (JobStoreUpdate fs) = True"
| "isUpdate e = False"

fun isDeletion :: "event \<Rightarrow> bool" where
  "isDeletion (JobStoreDelete j) = True"
| "isDeletion (JobStoreDeleteFile f) = True"
| "isDeletion e = False"

text \<open>The events of \<^verbatim>\<open>asyncUpdate\<close> up to the return of the block function.\<close>

definition commitPrefix :: "commitInput \<Rightarrow> event list" where
  "commitPrefix c = replicate (workers c) QueuePutNone @ map ThreadJoin [0 ..< workers c]
               @ [InputBlockFnCalled, InputBlockFnReturned]"

text \<open>Two commits of a job with two writer threads, one staged file and one staged wrapper.\<close>

definition commitClean :: commitInput where
  "commitClean = \<lparr>workers = 2, stagedFiles = [7], stagedJobs = [3],
                   blockFnRaises = False, terminateIsSet = False\<rparr>"

definition commitTerminated :: commitInput where
  "commitTerminated = \<lparr>workers = 2, stagedFiles = [7], stagedJobs = [3],
                        blockFnRaises = False, terminateIsSet = True\<rparr>"

section \<open>The worker node and the job store\<close>

text \<open>
  Files are inodes with a size and a modification time; a name is a directory entry
  that refers to an inode, so that hard links are several names of one inode. The
  names a worker uses are paths of its own (strings) and, inside the cache directory,
  the file \<^verbatim>\<open>encodedFileID(id)\<close>, the staging name of a download (that name
  with a leading dot) and the harbinger of a download. Job store file IDs, strings
  in the source, are numbers. Permission bits, log messages and the contents of files
  are not part of the model; sizes and requirements are the integers that the Python
  numbers hold.
\<close>

datatype path = LocalPath string | CachedFile nat | PartialFile nat | HarbingerFile nat

record inode =
  st_size :: nat
  st_mtime :: nat

text \<open>
  \<^verbatim>\<open>_JobState\<close> and \<^verbatim>\<open>_CacheState\<close>, the contents of the cache state file.
  Dictionaries are association lists, whose order stands for the order in which
  Python iterates; a missing key of a \<^verbatim>\<open>defaultdict\<close> reads as the empty value.
  The key \<open>None\<close> of the inner dictionaries is the path \<^verbatim>\<open>None\<close> under which
  files from outside the temporary directory are recorded.
\<close>

record jobStateRec =
  jobReqs :: int
  jobDir :: string
  jobSpecificFiles :: "(nat \<times> (path option \<times> int) list) list"
  filesToFSIDs :: "(path option \<times> nat list) list"

record cacheState =
  nlink :: nat
  attemptNumber :: nat
  total :: int
  cached :: int
  sigmaJob :: int
  cacheDir :: string
  jobState :: "(string \<times> jobStateRec) list"

text \<open>
  The state of a node: the directory entries, the job store (file ID to inode), the
  inodes, the cache state file and the history of the states written to it. The
  class attributes \<^verbatim>\<open>_jobStoreFileIDToCacheLocation\<close> and \<^verbatim>\<open>_pendingFileWrites\<close>
  of \<^verbatim>\<open>FileStore\<close> are shared by all its instances and belong here as well.
\<close>

record world =
  names :: "(path \<times> nat) list"
  storeFiles :: "(nat \<times> nat) list"
  inodes :: "inode list"
  nextFileID :: nat
  clock :: nat
  storeLocator :: string
  storeIsFileJobStore :: bool
  storeLinks :: bool
  onCacheDevice :: "string \<Rightarrow> bool"
  cacheStateFile :: cacheState
  commits :: "cacheState list"
  jobStoreFileIDToCacheLocation :: "(nat \<times> string) list"
  pendingFileWrites :: "nat set"

definition thenE :: "error + 'a \<Rightarrow> ('a \<Rightarrow> error + 'b) \<Rightarrow> error + 'b" where
  "thenE m f = (case m of Inl e \<Rightarrow> Inl e | Inr x \<Rightarrow> f x)"


subsection \<open>File system calls\<close>









subsection \<open>The job store\<close>

text \<open>
  Modelled from the spec: the job store behind the interface
  \<^verbatim>\<open>getEmptyFileStoreID\<close>, \<^verbatim>\<open>writeFile\<close>, \<^verbatim>\<open>readFile\<close>, \<^verbatim>\<open>readFileStream\<close>, whose
  implementations are not part of the sources. A new file gets the next unused ID.
  \<^verbatim>\<open>readFile\<close> hard-links when the job store is the local-file job store on the
  device of the destination (\<open>storeLinks\<close>) and copies otherwise.
\<close>

definition getEmptyFileStoreID :: "world \<Rightarrow> world \<times> nat" where
  "getEmptyFileStoreID w =
     (w\<lparr>storeFiles := storeFiles w @ [(nextFileID w, length (inodes w))],
        inodes := inodes w @ [\<lparr>st_size = 0, st_mtime = clock w\<rparr>],
        nextFileID := Suc (nextFileID w),
        clock := Suc (clock w)\<rparr>, nextFileID w)"




section \<open>Promises\<close>

text \<open>
  Of a job the promise mechanism uses \<^verbatim>\<open>_rvs\<close>, a \<^verbatim>\<open>defaultdict(list)\<close> from the
  index of a return value (\<open>None\<close> for the whole value) to the IDs of the promise
  files, and \<^verbatim>\<open>_promiseJobStore\<close>, which is \<^verbatim>\<open>None\<close> or the job store.
\<close>

record promisingJob =
  rvs :: "int option \<Rightarrow> nat list"
  promiseJobStore :: bool

datatype promise = Promise nat "int option"

text \<open>\<^verbatim>\<open>Job.rv\<close>.\<close>

definition rv :: "nat \<Rightarrow> int option \<Rightarrow> promise" where
  "rv self index = Promise self index"

text \<open>\<^verbatim>\<open>Job.allocatePromiseFile\<close>.\<close>

definition allocatePromiseFile ::
  "world \<times> promisingJob list \<Rightarrow> nat \<Rightarrow> int option
     \<Rightarrow> error + (world \<times> promisingJob list) \<times> (string \<times> nat)" where
  "allocatePromiseFile st self index =
     (if \<not> promiseJobStore (snd st ! self) then Inl RuntimeError
      else
        (let (w, jobStoreFileID) = getEmptyFileStoreID (fst st);
             j = snd st ! self;
             j' = j\<lparr>rvs := (rvs j)(index := rvs j index @ [jobStoreFileID])\<rparr>
         in Inr ((w, (snd st)[self := j']), (storeLocator w, jobStoreFileID))))"

text \<open>\<^verbatim>\<open>Promise.__reduce__\<close>, called when the promise is pickled.\<close>

fun reduce ::
  "world \<times> promisingJob list \<Rightarrow> promise
     \<Rightarrow> error + (world \<times> promisingJob list) \<times> (string \<times> nat)" where
  "reduce st (Promise j index) = allocatePromiseFile st j index"

text \<open>
  Authoring steps around promises: creating one with \<^verbatim>\<open>rv\<close>, which touches no
  state, and pickling one.
\<close>

datatype promiseOp = CreatePromise nat "int option" | PicklePromise promise

fun promiseStep :: "world \<times> promisingJob list \<Rightarrow> promiseOp \<Rightarrow> error + world \<times> promisingJob list" where
  "promiseStep st (CreatePromise j index) = (let p = rv j index in Inr st)"
| "promiseStep st (PicklePromise p) = map_sum id fst (reduce st p)"

fun promiseSteps :: "world \<times> promisingJob list \<Rightarrow> promiseOp list \<Rightarrow> error + world \<times> promisingJob list" where
  "promiseSteps st [] = Inr st"
| "promiseSteps st (x # xs) = thenE (promiseStep st x) (\<lambda>st'. promiseSteps st' xs)"

fun isPickle :: "promiseOp \<Rightarrow> bool" where
  "isPickle (PicklePromise p) = True"
| "isPickle (CreatePromise j index) = False"

section \<open>The cached file store\<close>


subsection \<open>The cache state file\<close>

text \<open>\<^verbatim>\<open>_CacheState.isBalanced\<close>.\<close>

definition isBalanced :: "cacheState \<Rightarrow> bool" where
  "isBalanced c \<longleftrightarrow> cached c + sigmaJob c \<le> total c"

text \<open>\<^verbatim>\<open>_CacheState.write\<close>: the state replaces the file; the history records it.\<close>

definition cacheWrite :: "world \<Rightarrow> cacheState \<Rightarrow> world" where
  "cacheWrite w c = w\<lparr>cacheStateFile := c, commits := commits w @ [c]\<rparr>"


definition setJobState :: "cacheState \<Rightarrow> string \<Rightarrow> jobStateRec \<Rightarrow> cacheState" where
  "setJobState c h js = c\<lparr>jobState := AList.update h js (jobState c)\<rparr>"






























section \<open>The file store without the shared cache\<close>





section \<open>Runs of a job\<close>





section \<open>Runs against the cache\<close>





text \<open>The states written to the cache state file so far are all balanced.\<close>

definition balancedHistory :: "world \<Rightarrow> bool" where
  "balancedHistory w \<longleftrightarrow> isBalanced (cacheStateFile w) \<and> list_all isBalanced (commits w)"


text \<open>Two nodes with the same cache state file and the same history of it.\<close>

definition sameCache :: "world \<Rightarrow> world \<Rightarrow> bool" where
  "sameCache w w' \<longleftrightarrow> cacheStateFile w' = cacheStateFile w \<and> commits w' = commits w"



subsection \<open>A node with one job\<close>

text \<open>
  A node whose cache of 100 bytes is empty, with a remote job store, and a worker
  whose job has written a file of 40 bytes into its temporary directory.
\<close>

definition cacheState0 :: cacheState where
  "cacheState0 = \<lparr>nlink = 1, attemptNumber = 0, total = 100, cached = 0, sigmaJob = 0,
                   cacheDir = ''/node/cache'', jobState = []\<rparr>"

definition world0 :: world where
  "world0 = \<lparr>names = [(LocalPath ''/node/w/j/out'', 0)], storeFiles = [],
              inodes = [\<lparr>st_size = 40, st_mtime = 0\<rparr>], nextFileID = 0, clock = 1,
              storeLocator = ''aws:us-west-2:store'', storeIsFileJobStore = False,
              storeLinks = False, onCacheDevice = (\<lambda>p. True),
              cacheStateFile = cacheState0, commits = [],
              jobStoreFileIDToCacheLocation = [], pendingFileWrites = {}\<rparr>"










text \<open>A job that may pickle promises, on the same node.\<close>

definition promising0 :: "world \<times> promisingJob list" where
  "promising0 = (world0, [\<lparr>rvs = (\<lambda>i. []), promiseJobStore = True\<rparr>])"

section \<open>Properties\<close>

subsection \<open>The concrete graphs are what the authoring calls build\<close>

lemma build_hiddenCycle:
  "build (replicate 4 (newJob False)) hiddenCycleOps = Inr hiddenCycleGraph"
  by (simp add: hiddenCycleOps_def hiddenCycleGraph_def newJob_def addChild_def
      addPredecessor_def numeral_Bit0 numeral_Bit1)

lemma build_followOnCycle:
  "build (replicate 3 (newJob False)) followOnCycleOps = Inr followOnCycleGraph"
  by (simp add: followOnCycleOps_def followOnCycleGraph_def newJob_def addChild_def
      addFollowOn_def addPredecessor_def numeral_3_eq_3)

lemma build_twoCycle:
  "build [newJob False, newJob False] twoCycleOps = Inr twoCycleGraph"
  by (simp add: twoCycleOps_def twoCycleGraph_def newJob_def addChild_def addPredecessor_def)

lemma build_checkpoint:
  "build [newJob False, newJob True, newJob False] checkpointOps = Inr checkpointGraph"
  by (simp add: checkpointOps_def checkpointGraph_def newJob_def addChild_def addPredecessor_def)

lemma hiddenCycle_edges:
  "(0, 1) \<in> succEdges hiddenCycleGraph" "(2, 1) \<in> succEdges hiddenCycleGraph"
  "(2, 3) \<in> succEdges hiddenCycleGraph" "(3, 2) \<in> succEdges hiddenCycleGraph"
  by (simp_all add: succEdges_def hiddenCycleGraph_def)

lemma hiddenCycle_component: "{1, 2, 3} \<subseteq> component hiddenCycleGraph 0"
proof -
  let ?E = "succEdges hiddenCycleGraph \<union> (succEdges hiddenCycleGraph)\<inverse>"
  have e01: "(0, 1) \<in> ?E" and e12: "(1, 2) \<in> ?E" and e23: "(2, 3) \<in> ?E"
    using hiddenCycle_edges by auto
  have r1: "(0, 1) \<in> ?E\<^sup>*" using e01 by (rule r_into_rtrancl)
  have r2: "(0, 2) \<in> ?E\<^sup>*" using r1 e12 by (rule rtrancl_into_rtrancl)
  have r3: "(0, 3) \<in> ?E\<^sup>*" using r2 e23 by (rule rtrancl_into_rtrancl)
  show ?thesis using r1 r2 r3 by (simp add: component_def)
qed

lemma hiddenCycle_validated:
  "checkJobGraphForDeadlocks 5 hiddenCycleGraph 0 = Some (Inr ())"
  by code_simp

lemma followOnCycle_rejected:
  "checkJobGraphAcylic 4 followOnCycleGraph 0 = Some (Inl JobGraphDeadlockException)"
  by code_simp

subsection \<open>The roots of the connected component\<close>

text \<open>Invariants of the loops over the lists of a job.\<close>

lemma closedStep_refl: "closedStep g a a"
  by (simp add: closedStep_def)

lemma closedStep_trans: "closedStep g a b \<Longrightarrow> closedStep g b c \<Longrightarrow> closedStep g a c"
  unfolding closedStep_def by blast

lemma foldOpt_inv:
  assumes step: "\<And>x s s'. x \<in> S \<Longrightarrow> I s \<Longrightarrow> f x s = Some s' \<Longrightarrow> I s'"
  shows "set xs \<subseteq> S \<Longrightarrow> I s \<Longrightarrow> foldOpt f xs s = Some s' \<Longrightarrow> I s'"
proof (induction xs arbitrary: s)
  case Nil
  then show ?case by simp
next
  case (Cons x xs)
  from Cons.prems(3) obtain s1 where s1: "f x s = Some s1" and r: "foldOpt f xs s1 = Some s'"
    by (auto split: option.splits)
  from Cons.prems(1) have x: "x \<in> S" and xs: "set xs \<subseteq> S" by simp_all
  have "I s1" using step[OF x Cons.prems(2) s1] .
  then show ?case using Cons.IH[OF xs _ r] by simp
qed

lemma foldOpt_total:
  assumes step: "\<And>x s. x \<in> S \<Longrightarrow> I s \<Longrightarrow> \<exists>s'. f x s = Some s' \<and> I s'"
  shows "set xs \<subseteq> S \<Longrightarrow> I s \<Longrightarrow> \<exists>s'. foldOpt f xs s = Some s' \<and> I s'"
proof (induction xs arbitrary: s)
  case Nil
  then show ?case by simp
next
  case (Cons x xs)
  from Cons.prems(1) have x: "x \<in> S" and xs: "set xs \<subseteq> S" by simp_all
  from step[OF x Cons.prems(2)] obtain s1 where s1: "f x s = Some s1" and i1: "I s1"
    by auto
  from Cons.IH[OF xs i1] obtain s' where "foldOpt f xs s1 = Some s'" "I s'"
    by auto
  with s1 show ?case by simp
qed

lemma foldOpt_visits:
  assumes step: "\<And>x s s'. f x s = Some s' \<Longrightarrow> x \<in> snd s' \<and> closedStep g (snd s) (snd s')"
  shows "foldOpt f xs s = Some s' \<Longrightarrow> set xs \<subseteq> snd s' \<and> closedStep g (snd s) (snd s')"
proof (induction xs arbitrary: s)
  case Nil
  then show ?case by (simp add: closedStep_refl)
next
  case (Cons x xs)
  from Cons.prems obtain s1 where s1: "f x s = Some s1" and r: "foldOpt f xs s1 = Some s'"
    by (auto split: option.splits)
  from step[OF s1] have a: "x \<in> snd s1" "closedStep g (snd s) (snd s1)" by simp_all
  from Cons.IH[OF r] have b: "set xs \<subseteq> snd s'" "closedStep g (snd s1) (snd s')"
    by simp_all
  have c: "closedStep g (snd s) (snd s')" using a(2) b(2) by (rule closedStep_trans)
  from b(2) a(1) have "x \<in> snd s'" by (auto simp: closedStep_def)
  with b(1) c show ?case by simp
qed

lemma foldOpt_inv_all:
  assumes step: "\<And>x s s'. f x s = Some s' \<Longrightarrow> I s \<Longrightarrow> I s'"
  shows "foldOpt f xs s = Some s' \<Longrightarrow> I s \<Longrightarrow> I s'"
proof (induction xs arbitrary: s)
  case Nil
  then show ?case by simp
next
  case (Cons x xs)
  from Cons.prems(1) obtain s1 where s1: "f x s = Some s1" and r: "foldOpt f xs s1 = Some s'"
    by (auto split: option.splits)
  have "I s1" using step[OF s1 Cons.prems(2)] .
  then show ?case using Cons.IH[OF r] by simp
qed

text \<open>What a call of \<^verbatim>\<open>getRoots\<close> adds to the visited set and to the roots.\<close>

lemma getRoots_closure:
  "getRoots n g j st = Some st' \<Longrightarrow> j \<in> snd st' \<and> closedStep g (snd st) (snd st')"
proof (induction n arbitrary: j st st')
  case 0
  then show ?case by simp
next
  case (Suc n)
  show ?case
  proof (cases "j \<in> snd st")
    case True
    with Suc.prems show ?thesis by (simp add: closedStep_refl)
  next
    case False
    let ?ps = "directPredecessors (g ! j)"
    let ?ss = "children (g ! j) @ followOns (g ! j)"
    from Suc.prems False obtain sA where
      sA: "(if length ?ps > 0 then foldOpt (getRoots n g) ?ps (fst st, insert j (snd st))
            else Some (insert j (fst st), insert j (snd st))) = Some sA"
      and r: "foldOpt (getRoots n g) ?ss sA = Some st'"
      by (auto split: option.splits)
    have A: "set ?ps \<subseteq> snd sA \<and> closedStep g (insert j (snd st)) (snd sA)"
    proof (cases "length ?ps > 0")
      case True
      with sA have "foldOpt (getRoots n g) ?ps (fst st, insert j (snd st)) = Some sA" by simp
      from foldOpt_visits[of "getRoots n g" g, OF Suc.IH this] show ?thesis by simp
    next
      case False
      with sA show ?thesis by (auto simp: closedStep_refl)
    qed
    have B: "set ?ss \<subseteq> snd st' \<and> closedStep g (snd sA) (snd st')"
      using foldOpt_visits[of "getRoots n g" g, OF Suc.IH r] by simp
    have C: "closedStep g (insert j (snd st)) (snd st')"
      using conjunct2[OF A] conjunct2[OF B] by (rule closedStep_trans)
    have "set (nbrs g j) \<subseteq> snd st'"
      using A B by (auto simp: nbrs_def closedStep_def)
    with C show ?thesis by (auto simp: closedStep_def)
  qed
qed

lemma getRoots_roots:
  "getRoots n g j st = Some st' \<Longrightarrow> fst st = {v \<in> snd st. isRoot g v}
     \<Longrightarrow> fst st' = {v \<in> snd st'. isRoot g v}"
proof (induction n arbitrary: j st st')
  case 0
  then show ?case by simp
next
  case (Suc n)
  show ?case
  proof (cases "j \<in> snd st")
    case True
    with Suc.prems show ?thesis by simp
  next
    case False
    let ?ps = "directPredecessors (g ! j)"
    let ?ss = "children (g ! j) @ followOns (g ! j)"
    from Suc.prems(1) False obtain sA where
      sA: "(if length ?ps > 0 then foldOpt (getRoots n g) ?ps (fst st, insert j (snd st))
            else Some (insert j (fst st), insert j (snd st))) = Some sA"
      and r: "foldOpt (getRoots n g) ?ss sA = Some st'"
      by (auto split: option.splits)
    have A: "fst sA = {v \<in> snd sA. isRoot g v}"
    proof (cases "length ?ps > 0")
      case True
      with sA have f: "foldOpt (getRoots n g) ?ps (fst st, insert j (snd st)) = Some sA" by simp
      from True have nr: "\<not> isRoot g j" by (simp add: isRoot_def)
      have "{v \<in> insert j (snd st). isRoot g v} = {v \<in> snd st. isRoot g v}"
        using nr by blast
      with Suc.prems(2)
      have i: "fst (fst st, insert j (snd st)) = {v \<in> snd (fst st, insert j (snd st)). isRoot g v}"
        by simp
      show ?thesis
        by (rule foldOpt_inv_all[of "getRoots n g" "\<lambda>s. fst s = {v \<in> snd s. isRoot g v}", OF Suc.IH f i])
    next
      case False
      then have ir: "isRoot g j" by (simp add: isRoot_def)
      have "{v \<in> insert j (snd st). isRoot g v} = insert j {v \<in> snd st. isRoot g v}"
        using ir by blast
      moreover from False sA have "sA = (insert j (fst st), insert j (snd st))" by simp
      ultimately show ?thesis using Suc.prems(2) by simp
    qed
    show ?thesis
      by (rule foldOpt_inv_all[of "getRoots n g" "\<lambda>s. fst s = {v \<in> snd s. isRoot g v}", OF Suc.IH r A])
  qed
qed

lemma getRoots_sound:
  "getRoots n g j st = Some st' \<Longrightarrow> j \<in> R \<Longrightarrow> snd st \<subseteq> R
     \<Longrightarrow> (\<forall>v \<in> R. set (nbrs g v) \<subseteq> R) \<Longrightarrow> snd st' \<subseteq> R"
proof (induction n arbitrary: j st st')
  case 0
  then show ?case by simp
next
  case (Suc n)
  let ?I = "\<lambda>s. snd s \<subseteq> R"
  show ?case
  proof (cases "j \<in> snd st")
    case True
    with Suc.prems show ?thesis by simp
  next
    case False
    let ?ps = "directPredecessors (g ! j)"
    let ?ss = "children (g ! j) @ followOns (g ! j)"
    from Suc.prems(1) False obtain sA where
      sA: "(if length ?ps > 0 then foldOpt (getRoots n g) ?ps (fst st, insert j (snd st))
            else Some (insert j (fst st), insert j (snd st))) = Some sA"
      and r: "foldOpt (getRoots n g) ?ss sA = Some st'"
      by (auto split: option.splits)
    have nb: "set ?ps \<subseteq> R" "set ?ss \<subseteq> R"
      using Suc.prems(2,4) by (auto simp: nbrs_def)
    have step: "\<And>x s s'. x \<in> R \<Longrightarrow> ?I s \<Longrightarrow> getRoots n g x s = Some s' \<Longrightarrow> ?I s'"
      using Suc.IH Suc.prems(4) by blast
    have A: "?I sA"
    proof (cases "length ?ps > 0")
      case True
      with sA have f: "foldOpt (getRoots n g) ?ps (fst st, insert j (snd st)) = Some sA" by simp
      have "?I (fst st, insert j (snd st))" using Suc.prems(2,3) by simp
      then show ?thesis using foldOpt_inv[of R ?I "getRoots n g" ?ps, OF step nb(1) _ f] by simp
    next
      case False
      with sA Suc.prems(2,3) show ?thesis by auto
    qed
    then show ?thesis using foldOpt_inv[of R ?I "getRoots n g" ?ss, OF step nb(2) _ r] by simp
  qed
qed

lemma getRoots_total:
  "closed g \<Longrightarrow> j < length g \<Longrightarrow> snd st \<subseteq> {..<length g}
   \<Longrightarrow> card ({..<length g} - snd st) < n
   \<Longrightarrow> \<exists>st'. getRoots n g j st = Some st' \<and> snd st \<subseteq> snd st' \<and> snd st' \<subseteq> {..<length g}"
proof (induction n arbitrary: j st)
  case 0
  then show ?case by simp
next
  case (Suc n)
  let ?V = "{..<length g}"
  show ?case
  proof (cases "j \<in> snd st")
    case True
    with Suc.prems show ?thesis by simp
  next
    case False
    let ?ps = "directPredecessors (g ! j)"
    let ?ss = "children (g ! j) @ followOns (g ! j)"
    let ?vis1 = "insert j (snd st)"
    let ?I = "\<lambda>s::nat set \<times> nat set. ?vis1 \<subseteq> snd s \<and> snd s \<subseteq> ?V"
    have jV: "j \<in> ?V - snd st" using Suc.prems(2) False by simp
    have "?V - ?vis1 = (?V - snd st) - {j}" by blast
    then have "card (?V - ?vis1) = card (?V - snd st) - 1"
      using jV by (simp add: card_Diff_singleton)
    moreover have "card (?V - snd st) > 0"
      using jV by (metis card_gt_0_iff empty_iff finite_Diff finite_lessThan)
    ultimately have c1: "card (?V - ?vis1) < n" using Suc.prems(4) by linarith
    have step: "\<And>x s. x \<in> ?V \<Longrightarrow> ?I s \<Longrightarrow> \<exists>s'. getRoots n g x s = Some s' \<and> ?I s'"
    proof -
      fix x s
      assume x: "x \<in> ?V" and i: "?I s"
      have "?V - snd s \<subseteq> ?V - ?vis1" using i by blast
      then have "card (?V - snd s) \<le> card (?V - ?vis1)"
        by (intro card_mono) simp_all
      with c1 have "card (?V - snd s) < n" by linarith
      with Suc.IH[of x s] Suc.prems(1) x i
      obtain s' where "getRoots n g x s = Some s'" "snd s \<subseteq> snd s'" "snd s' \<subseteq> ?V"
        by auto
      with i show "\<exists>s'. getRoots n g x s = Some s' \<and> ?I s'" by blast
    qed
    have nb: "set ?ps \<subseteq> ?V" "set ?ss \<subseteq> ?V"
      using Suc.prems(1,2) by (auto simp: closed_def)
    have i0: "?I (fst st, ?vis1)" "?I (insert j (fst st), ?vis1)"
      using Suc.prems(2,3) by auto
    have "\<exists>sA. (if length ?ps > 0 then foldOpt (getRoots n g) ?ps (fst st, ?vis1)
            else Some (insert j (fst st), ?vis1)) = Some sA \<and> ?I sA"
    proof (cases "length ?ps > 0")
      case True
      with foldOpt_total[of ?V ?I "getRoots n g" ?ps, OF step nb(1) i0(1)] show ?thesis by simp
    next
      case False
      with i0(2) show ?thesis by auto
    qed
    then obtain sA where sA: "(if length ?ps > 0 then foldOpt (getRoots n g) ?ps (fst st, ?vis1)
            else Some (insert j (fst st), ?vis1)) = Some sA" and iA: "?I sA" by blast
    from foldOpt_total[of ?V ?I "getRoots n g" ?ss, OF step nb(2) iA]
    obtain st' where r: "foldOpt (getRoots n g) ?ss sA = Some st'" and i': "?I st'" by blast
    have "getRoots (Suc n) g j st = Some st'"
      using False sA r by simp
    with i' show ?thesis by blast
  qed
qed

lemma links_edges:
  assumes "closed g" "consistent g" "a < length g"
  shows "(a, b) \<in> links g \<longleftrightarrow> (a, b) \<in> succEdges g \<union> (succEdges g)\<inverse>"
proof
  assume "(a, b) \<in> links g"
  then have "b \<in> set (directPredecessors (g ! a)) \<or> b \<in> set (children (g ! a) @ followOns (g ! a))"
    by (auto simp: links_def nbrs_def)
  then show "(a, b) \<in> succEdges g \<union> (succEdges g)\<inverse>"
  proof
    assume p: "b \<in> set (directPredecessors (g ! a))"
    with assms(1,3) have "b < length g" by (auto simp: closed_def)
    with assms(2,3) p have "a \<in> set (children (g ! b) @ followOns (g ! b))"
      by (simp add: consistent_def)
    with \<open>b < length g\<close> show ?thesis by (simp add: succEdges_def)
  next
    assume "b \<in> set (children (g ! a) @ followOns (g ! a))"
    with assms(3) show ?thesis by (simp add: succEdges_def)
  qed
next
  assume "(a, b) \<in> succEdges g \<union> (succEdges g)\<inverse>"
  then show "(a, b) \<in> links g"
  proof
    assume "(a, b) \<in> succEdges g"
    then show ?thesis by (auto simp: succEdges_def links_def nbrs_def)
  next
    assume "(a, b) \<in> (succEdges g)\<inverse>"
    then have b: "b < length g" "a \<in> set (children (g ! b) @ followOns (g ! b))"
      by (auto simp: succEdges_def)
    with assms(2,3) have "b \<in> set (directPredecessors (g ! a))"
      by (simp add: consistent_def)
    then show ?thesis by (simp add: links_def nbrs_def)
  qed
qed

lemma links_inside:
  assumes "closed g" "a < length g" "(a, b) \<in> links g"
  shows "b < length g"
  using assms by (auto simp: closed_def links_def nbrs_def)

lemma links_component:
  assumes c: "closed g" and k: "consistent g" and s: "self < length g"
  shows "(links g)\<^sup>* `` {self} = component g self"
proof -
  let ?E = "succEdges g \<union> (succEdges g)\<inverse>"
  have a: "(self, x) \<in> (links g)\<^sup>* \<Longrightarrow> x < length g \<and> (self, x) \<in> ?E\<^sup>*" for x
  proof (induction rule: rtrancl_induct)
    case base
    then show ?case using s by simp
  next
    case (step y z)
    then have "(y, z) \<in> ?E" using links_edges[OF c k, of y z] by simp
    moreover have "z < length g" using links_inside[OF c _ step.hyps(2)] step.IH by simp
    ultimately show ?case using step.IH by (auto intro: rtrancl_into_rtrancl)
  qed
  have b: "(self, x) \<in> ?E\<^sup>* \<Longrightarrow> x < length g \<and> (self, x) \<in> (links g)\<^sup>*" for x
  proof (induction rule: rtrancl_induct)
    case base
    then show ?case using s by simp
  next
    case (step y z)
    then have l: "(y, z) \<in> links g" using links_edges[OF c k, of y z] by simp
    moreover have "z < length g" using links_inside[OF c _ l] step.IH by simp
    ultimately show ?case using step.IH by (auto intro: rtrancl_into_rtrancl)
  qed
  show ?thesis using a b by (auto simp: component_def)
qed

lemma getRootJobs_component:
  assumes c: "closed g" and k: "consistent g" and s: "self < length g" and f: "length g < fuel"
  shows "getRootJobs fuel g self = Some {j \<in> component g self. isRoot g j}"
proof -
  let ?R = "(links g)\<^sup>* `` {self}"
  have "card ({..<length g} - snd ({}::nat set, {}::nat set)) < fuel" using f by simp
  with getRoots_total[OF c s, of "({}, {})" fuel]
  obtain st' where r: "getRoots fuel g self ({}, {}) = Some st'" by auto
  have roots: "fst st' = {v \<in> snd st'. isRoot g v}"
    using getRoots_roots[OF r] by simp
  have Rclosed: "\<forall>v \<in> ?R. set (nbrs g v) \<subseteq> ?R"
    by (auto simp: links_def intro: rtrancl_into_rtrancl)
  have sub: "snd st' \<subseteq> ?R"
    using getRoots_sound[OF r, of ?R] Rclosed by simp
  from getRoots_closure[OF r] have self: "self \<in> snd st'"
    and cl: "\<forall>v \<in> snd st'. set (nbrs g v) \<subseteq> snd st'"
    by (auto simp: closedStep_def)
  have "(self, x) \<in> (links g)\<^sup>* \<Longrightarrow> x \<in> snd st'" for x
  proof (induction rule: rtrancl_induct)
    case base
    then show ?case using self .
  next
    case (step y z)
    then show ?case using cl by (auto simp: links_def)
  qed
  then have "?R \<subseteq> snd st'" by auto
  with sub have "snd st' = ?R" by blast
  with roots links_component[OF c k s] have "fst st' = {j \<in> component g self. isRoot g j}"
    by simp
  with r show ?thesis by (simp add: getRootJobs_def)
qed

text \<open>The heaps that the authoring calls build from new jobs are closed and consistent.\<close>

lemma nth_update_children [simp]:
  "directPredecessors ((g[a := (g ! a)\<lparr>children := c\<rparr>]) ! j) = directPredecessors (g ! j)"
  by (cases "a < length g"; cases "j = a"; simp add: list_update_beyond)

lemma nth_update_followOns [simp]:
  "directPredecessors ((g[a := (g ! a)\<lparr>followOns := c\<rparr>]) ! j) = directPredecessors (g ! j)"
  by (cases "a < length g"; cases "j = a"; simp add: list_update_beyond)

lemma addPredecessor_wf:
  assumes "addPredecessor g b a = Inr g'" "a < length g" "b < length g"
  shows "length g' = length g"
    and "\<And>j. j < length g \<Longrightarrow> children (g' ! j) = children (g ! j)"
    and "\<And>j. j < length g \<Longrightarrow> followOns (g' ! j) = followOns (g ! j)"
    and "\<And>j. j < length g \<Longrightarrow> set (directPredecessors (g' ! j)) =
           set (directPredecessors (g ! j)) \<union> (if j = b then {a} else {})"
  using assms by (auto simp: addPredecessor_def nth_list_update split: if_splits)

lemma addChild_wf:
  assumes r: "addChild g a b = Inr g'" and a: "a < length g" and b: "b < length g"
    and c: "closed g" and k: "consistent g"
  shows "length g' = length g \<and> closed g' \<and> consistent g'"
proof -
  let ?g1 = "g[a := (g ! a)\<lparr>children := children (g ! a) @ [b]\<rparr>]"
  from r have p: "addPredecessor ?g1 b a = Inr g'" by (simp add: addChild_def Let_def)
  have l1: "length ?g1 = length g" by simp
  note w = addPredecessor_wf[OF p, unfolded l1, OF a b]
  have ch: "\<And>j. j < length g \<Longrightarrow> set (children (g' ! j)) = set (children (g ! j)) \<union> (if j = a then {b} else {})"
    using w(2) a by (auto simp: nth_list_update)
  have fo: "\<And>j. j < length g \<Longrightarrow> followOns (g' ! j) = followOns (g ! j)"
    using w(3) a by (auto simp: nth_list_update)
  have pr: "\<And>j. j < length g \<Longrightarrow> set (directPredecessors (g' ! j)) =
           set (directPredecessors (g ! j)) \<union> (if j = b then {a} else {})"
    using w(4) by simp
  have "closed g'"
    unfolding closed_def using c a b w(1) ch fo pr
    by (auto simp: closed_def split: if_splits)
  moreover have "consistent g'"
    unfolding consistent_def using k a b w(1) ch fo pr
    by (auto simp: consistent_def split: if_splits)
  ultimately show ?thesis using w(1) by simp
qed

lemma addFollowOn_wf:
  assumes r: "addFollowOn g a b = Inr g'" and a: "a < length g" and b: "b < length g"
    and c: "closed g" and k: "consistent g"
  shows "length g' = length g \<and> closed g' \<and> consistent g'"
proof -
  let ?g1 = "g[a := (g ! a)\<lparr>followOns := followOns (g ! a) @ [b]\<rparr>]"
  from r have p: "addPredecessor ?g1 b a = Inr g'" by (simp add: addFollowOn_def Let_def)
  have l1: "length ?g1 = length g" by simp
  note w = addPredecessor_wf[OF p, unfolded l1, OF a b]
  have fo: "\<And>j. j < length g \<Longrightarrow> set (followOns (g' ! j)) = set (followOns (g ! j)) \<union> (if j = a then {b} else {})"
    using w(3) a by (auto simp: nth_list_update)
  have ch: "\<And>j. j < length g \<Longrightarrow> children (g' ! j) = children (g ! j)"
    using w(2) a by (auto simp: nth_list_update)
  have pr: "\<And>j. j < length g \<Longrightarrow> set (directPredecessors (g' ! j)) =
           set (directPredecessors (g ! j)) \<union> (if j = b then {a} else {})"
    using w(4) by simp
  have "closed g'"
    unfolding closed_def using c a b w(1) ch fo pr
    by (auto simp: closed_def split: if_splits)
  moreover have "consistent g'"
    unfolding consistent_def using k a b w(1) ch fo pr
    by (auto simp: consistent_def split: if_splits)
  ultimately show ?thesis using w(1) by simp
qed

lemma build_wf:
  "build g ops = Inr g' \<Longrightarrow> closed g \<Longrightarrow> consistent g \<Longrightarrow>
   list_all (edgeOpInside (length g)) ops \<Longrightarrow>
   length g' = length g \<and> closed g' \<and> consistent g'"
proof (induction ops arbitrary: g)
  case Nil
  then show ?case by simp
next
  case (Cons x xs)
  from Cons.prems(1) obtain g1 where s: "applyEdgeOp g x = Inr g1" and r: "build g1 xs = Inr g'"
    by (auto split: sum.splits)
  from Cons.prems(4) have i: "edgeOpInside (length g) x" and rest: "list_all (edgeOpInside (length g)) xs"
    by simp_all
  have w: "length g1 = length g \<and> closed g1 \<and> consistent g1"
  proof (cases x)
    case (AddChild a b)
    with s i Cons.prems(2,3) show ?thesis using addChild_wf[of g a b g1] by simp
  next
    case (AddFollowOn a b)
    with s i Cons.prems(2,3) show ?thesis using addFollowOn_wf[of g a b g1] by simp
  qed
  with Cons.IH[OF r] rest show ?case by simp
qed

lemma fresh_wf: "closed (replicate n (newJob cp)) \<and> consistent (replicate n (newJob cp))"
  by (simp add: closed_def consistent_def newJob_def)

lemma closed_twoCycle: "closed twoCycleGraph"
  by (auto simp: closed_def twoCycleGraph_def less_Suc_eq numeral_2_eq_2)

lemma consistent_twoCycle: "consistent twoCycleGraph"
  by (auto simp: consistent_def twoCycleGraph_def less_Suc_eq numeral_2_eq_2)

lemma closed_checkpoint: "closed checkpointGraph"
  by (auto simp: closed_def checkpointGraph_def less_Suc_eq numeral_3_eq_3)

lemma consistent_checkpoint: "consistent checkpointGraph"
  by (auto simp: consistent_def checkpointGraph_def less_Suc_eq numeral_3_eq_3)

text \<open>
  C8. \<^verbatim>\<open>checkJobGraphConnected\<close> raises \<^verbatim>\<open>JobGraphDeadlockException\<close> if and
  only if the predecessor-free jobs of the connected component of the job are not
  exactly one job, and returns otherwise: on every closed and consistent heap, with
  a recursion bound above the number of jobs, \<^verbatim>\<open>getRootJobs\<close> returns the set of the
  predecessor-free jobs of the component. The two-job cycle built by
  \<^verbatim>\<open>A.addChild(B); B.addChild(A)\<close> has no root and is rejected.
\<close>

theorem connected_iff_one_root:
  "(closed g \<and> consistent g \<and> self < length g \<and> length g < fuel \<longrightarrow>
      getRootJobs fuel g self = Some {j \<in> component g self. isRoot g j}
      \<and> (checkJobGraphConnected fuel g self = Some (Inl JobGraphDeadlockException)
           \<longleftrightarrow> card {j \<in> component g self. isRoot g j} \<noteq> 1)
      \<and> (checkJobGraphConnected fuel g self = Some (Inr ())
           \<longleftrightarrow> card {j \<in> component g self. isRoot g j} = 1))
   \<and> build [newJob False, newJob False] twoCycleOps = Inr twoCycleGraph
   \<and> getRootJobs 3 twoCycleGraph 0 = Some {}
   \<and> checkJobGraphConnected 3 twoCycleGraph 0 = Some (Inl JobGraphDeadlockException)"
proof -
  have a: "getRootJobs 3 twoCycleGraph 0 = Some {}" by code_simp
  have b: "checkJobGraphConnected 3 twoCycleGraph 0 = Some (Inl JobGraphDeadlockException)"
    by code_simp
  have "closed g \<and> consistent g \<and> self < length g \<and> length g < fuel \<longrightarrow>
      getRootJobs fuel g self = Some {j \<in> component g self. isRoot g j}
      \<and> (checkJobGraphConnected fuel g self = Some (Inl JobGraphDeadlockException)
           \<longleftrightarrow> card {j \<in> component g self. isRoot g j} \<noteq> 1)
      \<and> (checkJobGraphConnected fuel g self = Some (Inr ())
           \<longleftrightarrow> card {j \<in> component g self. isRoot g j} = 1)"
    using getRootJobs_component[of g self fuel]
    by (simp add: checkJobGraphConnected_def)
  with a b build_twoCycle show ?thesis by blast
qed

theorem connected_iff_one_root_witness:
  "closed twoCycleGraph \<and> consistent twoCycleGraph \<and> 0 < length twoCycleGraph
   \<and> length twoCycleGraph < 3
   \<and> getRootJobs 3 twoCycleGraph 0 = Some {j \<in> component twoCycleGraph 0. isRoot twoCycleGraph j}
   \<and> card {j \<in> component twoCycleGraph 0. isRoot twoCycleGraph j} = 0
   \<and> checkJobGraphConnected 3 twoCycleGraph 0 = Some (Inl JobGraphDeadlockException)
   \<and> closed checkpointGraph \<and> consistent checkpointGraph \<and> 0 < length checkpointGraph
   \<and> length checkpointGraph < 4
   \<and> card {j \<in> component checkpointGraph 0. isRoot checkpointGraph j} = 1
   \<and> checkJobGraphConnected 4 checkpointGraph 0 = Some (Inr ())"
proof -
  have l2: "0 < length twoCycleGraph" "length twoCycleGraph < 3"
    by (simp_all add: twoCycleGraph_def)
  have l3: "0 < length checkpointGraph" "length checkpointGraph < 4"
    by (simp_all add: checkpointGraph_def)
  have e2: "getRootJobs 3 twoCycleGraph 0 = Some {}" by code_simp
  have e3: "checkJobGraphConnected 4 checkpointGraph 0 = Some (Inr ())" by code_simp
  note t2 = connected_iff_one_root[of twoCycleGraph 0 3]
  note t3 = connected_iff_one_root[of checkpointGraph 0 4]
  from t2 closed_twoCycle consistent_twoCycle l2
  have r2: "getRootJobs 3 twoCycleGraph 0 = Some {j \<in> component twoCycleGraph 0. isRoot twoCycleGraph j}"
    by blast
  with e2 have eq: "{j \<in> component twoCycleGraph 0. isRoot twoCycleGraph j} = {}" by simp
  have c2: "card {j \<in> component twoCycleGraph 0. isRoot twoCycleGraph j} = 0"
    by (subst eq) simp
  from t2 have d2: "checkJobGraphConnected 3 twoCycleGraph 0 = Some (Inl JobGraphDeadlockException)"
    by blast
  from t3 closed_checkpoint consistent_checkpoint l3 e3
  have c3: "card {j \<in> component checkpointGraph 0. isRoot checkpointGraph j} = 1" by blast
  show ?thesis
    using closed_twoCycle consistent_twoCycle l2 r2 c2 d2 closed_checkpoint consistent_checkpoint
      l3 c3 e3 by blast
qed

subsection \<open>Checkpoint jobs\<close>

text \<open>
  C2. Validation is to raise \<^verbatim>\<open>JobGraphDeadlockException\<close> for every checkpoint job
  that is not a root and has a successor of any kind. The test of the source joins
  the three successor lists with \<^verbatim>\<open>and\<close>: in the graph \<^verbatim>\<open>R.addChild(Y); Y.addChild(Z)\<close>
  with \<^verbatim>\<open>Y.checkpoint = True\<close> the job \<open>Y = 1\<close> is a checkpoint, is not a root and has
  a child, and both \<^verbatim>\<open>checkNewCheckpointsAreLeafVertices\<close> and the whole validation
  return without raising.
\<close>

theorem checkpoint_with_child_accepted:
  "build [newJob False, newJob True, newJob False] checkpointOps = Inr checkpointGraph
   \<and> checkpoint (checkpointGraph ! 1)
   \<and> children (checkpointGraph ! 1) = [2]
   \<and> getRootJobs 4 checkpointGraph 0 = Some {0}
   \<and> checkNewCheckpointsAreLeafVertices 4 checkpointGraph 0 = Some (Inr ())
   \<and> checkJobGraphForDeadlocks 4 checkpointGraph 0 = Some (Inr ())"
proof -
  have "checkpoint (checkpointGraph ! 1) \<and> children (checkpointGraph ! 1) = [2]"
    by (simp add: checkpointGraph_def)
  moreover have "getRootJobs 4 checkpointGraph 0 = Some {0}" by code_simp
  moreover have "checkNewCheckpointsAreLeafVertices 4 checkpointGraph 0 = Some (Inr ())"
    by code_simp
  moreover have "checkJobGraphForDeadlocks 4 checkpointGraph 0 = Some (Inr ())"
    by code_simp
  ultimately show ?thesis using build_checkpoint by simp
qed

subsection \<open>Cycles\<close>

text \<open>
  C3. \<^verbatim>\<open>checkJobGraphAcylic\<close> is to raise exactly when the augmented graph has a
  directed cycle. In the graph \<^verbatim>\<open>R.addChild(X); Y.addChild(X); Y.addChild(Z); Z.addChild(Y)\<close>
  the child edges \<open>Y \<rightarrow> Z\<close> and \<open>Z \<rightarrow> Y\<close> form a cycle among jobs of the connected
  component of \<open>R\<close>, the only root is \<open>R\<close>, and the check, which searches from the
  roots only, returns without raising.
\<close>

theorem hidden_cycle_not_detected:
  "build (replicate 4 (newJob False)) hiddenCycleOps = Inr hiddenCycleGraph
   \<and> (2, 3) \<in> succEdges hiddenCycleGraph \<and> (3, 2) \<in> succEdges hiddenCycleGraph
   \<and> 2 \<in> component hiddenCycleGraph 0 \<and> 3 \<in> component hiddenCycleGraph 0
   \<and> getRootJobs 5 hiddenCycleGraph 0 = Some {0}
   \<and> checkJobGraphAcylic 5 hiddenCycleGraph 0 = Some (Inr ())"
proof -
  have "getRootJobs 5 hiddenCycleGraph 0 = Some {0}" by code_simp
  moreover have "checkJobGraphAcylic 5 hiddenCycleGraph 0 = Some (Inr ())" by code_simp
  ultimately show ?thesis
    using build_hiddenCycle hiddenCycle_edges hiddenCycle_component by simp
qed

subsection \<open>Topological ordering\<close>

text \<open>
  C7. For a graph that passes validation the ordering computed from the root is to
  contain every job of the connected component. The graph of C3 passes
  \<^verbatim>\<open>checkJobGraphForDeadlocks\<close>, job \<open>0\<close> is its root, and the ordering is \<open>[0]\<close>:
  the jobs \<open>1\<close>, \<open>2\<close> and \<open>3\<close> of the component are missing.
\<close>

theorem ordering_misses_jobs_of_validated_graph:
  "checkJobGraphForDeadlocks 5 hiddenCycleGraph 0 = Some (Inr ())
   \<and> isRoot hiddenCycleGraph 0
   \<and> getTopologicalOrderingOfJobs 5 hiddenCycleGraph 0 = Some [0]
   \<and> {1, 2, 3} \<subseteq> component hiddenCycleGraph 0"
proof -
  have "getTopologicalOrderingOfJobs 5 hiddenCycleGraph 0 = Some [0]" by code_simp
  moreover have "isRoot hiddenCycleGraph 0" by (simp add: isRoot_def hiddenCycleGraph_def)
  ultimately show ?thesis using hiddenCycle_validated hiddenCycle_component by simp
qed

subsection \<open>Services\<close>

lemma addService_attached_raises:
  "hasParent (svcs st ! s) \<Longrightarrow> addService fuel st j s None = Some (Inl JobException)"
  by (simp add: addService_def)

lemma addService_parent_not_found_raises:
  "checkServices fuel (svcs st) p (services (jobs st ! j)) = Some False
   \<Longrightarrow> addService fuel st j s (Some p) = Some (Inl JobException)"
  by (simp add: addService_def)

text \<open>
  C9. \<^verbatim>\<open>addService\<close> is to raise \<^verbatim>\<open>JobException\<close> for a service that is already
  attached, also when it was attached below a parent service. After
  \<^verbatim>\<open>j.addService(s); j.addService(t, parentService=s)\<close> the call \<^verbatim>\<open>j.addService(t)\<close>
  returns normally: \<^verbatim>\<open>_addChild\<close> has set \<^verbatim>\<open>t._parent\<close> instead of \<^verbatim>\<open>t._hasParent\<close>,
  and \<open>t = 1\<close> ends up both below \<open>s = 0\<close> and among the services of the job.
\<close>

theorem addService_accepts_child_service_again:
  "addServices 3 authoring0 [(0, 0, None), (0, 1, Some 0), (0, 1, None)] =
     Some (Inr \<lparr>jobs = [\<lparr>children = [], followOns = [], services = [0, 1],
                          directPredecessors = [], checkpoint = False\<rparr>],
                svcs = [\<lparr>childServices = [1], hasParent = True, parentAttr = None\<rparr>,
                        \<lparr>childServices = [], hasParent = True, parentAttr = Some True\<rparr>]\<rparr>)"
  by (simp add: authoring0_def newJob_def newService_def addService_def service_addChild_def
      numeral_3_eq_3)

subsection \<open>Merging the successor stack\<close>

text \<open>
  C5. On a wrapper whose stack ends with the batches
  \<open>[oldFollowOns, oldChildren, newFollowOns, newChildren]\<close>, \<^verbatim>\<open>_serialiseExistingJob\<close>
  replaces these four by the follow-on batch \<open>newFollowOns @ oldFollowOns\<close> followed by
  the children batch \<open>newChildren @ oldChildren\<close>, leaves out a merged batch that is
  empty, and keeps the rest of the stack.
\<close>

theorem serialiseExistingJob_merges_batches:
  assumes "stack w = rest @ [oldFollowOns, oldChildren, newFollowOns, newChildren]"
  shows "serialiseExistingJob w =
     Inr (w\<lparr>command := None,
            stack := rest
              @ (if newFollowOns @ oldFollowOns = [] then [] else [newFollowOns @ oldFollowOns])
              @ (if newChildren @ oldChildren = [] then [] else [newChildren @ oldChildren])\<rparr>)"
proof -
  let ?n = "length rest"
  have len: "length (stack w) = ?n + 4" using assms by simp
  have n1: "stack w ! (?n + 4 - 1) = newChildren" using assms by (simp add: nth_append)
  have n2: "stack w ! (?n + 4 - 2) = newFollowOns" using assms by (simp add: nth_append)
  have n3: "stack w ! (?n + 4 - 3) = oldChildren" using assms by (simp add: nth_append)
  have n4: "stack w ! (?n + 4 - 4) = oldFollowOns" using assms by (simp add: nth_append)
  have tk: "take (?n + 4 - 4) (stack w) = rest" using assms by simp
  show ?thesis
    unfolding serialiseExistingJob_def Let_def
    using len n1 n2 n3 n4 tk by simp
qed

theorem serialiseExistingJob_merges_batches_witness:
  "stack \<lparr>command = Some ''_toil 5 m'', stack = [[9::nat], [], [1], [], [2, 3]]\<rparr>
     = [[9]] @ [[], [1], [], [2, 3]]
   \<and> serialiseExistingJob \<lparr>command = Some ''_toil 5 m'', stack = [[9::nat], [], [1], [], [2, 3]]\<rparr>
     = Inr \<lparr>command = None, stack = [[9], [2, 3, 1]]\<rparr>"
  using serialiseExistingJob_merges_batches
    [of "\<lparr>command = Some ''_toil 5 m'', stack = [[9::nat], [], [1], [], [2, 3]]\<rparr>"
        "[[9]]" "[]" "[1]" "[]" "[2, 3]"]
  by simp

subsection \<open>The order of the commit\<close>

lemma before_first:
  assumes "A @ ys = pre @ e # post" and "\<forall>a \<in> set A. \<not> P a" and "P e"
  shows "\<exists>pre'. pre = A @ pre'"
  using assms by (auto simp: append_eq_append_conv2 append_eq_Cons_conv)

lemma asyncUpdate_ok:
  assumes "\<not> blockFnRaises c" "\<not> terminateIsSet c"
  shows "fst (asyncUpdate c) = commitPrefix c @ [JobStoreUpdate (stagedFiles c)]
                     @ map JobStoreDelete (stagedJobs c)
                     @ map JobStoreDeleteFile (stagedFiles c)
                     @ (if length (stagedFiles c) > 0 then [JobStoreUpdate []] else [])
                     @ [UpdateSemaphoreRelease]"
  using assms by (simp add: asyncUpdate_def commitPrefix_def Let_def)

lemma asyncUpdate_fail:
  assumes "blockFnRaises c \<or> terminateIsSet c"
  shows "\<forall>e \<in> set (fst (asyncUpdate c)). \<not> isUpdate e \<and> \<not> isDeletion e"
  using assms by (auto simp add: asyncUpdate_def Let_def)

lemma commitPrefix_props:
  "\<forall>a \<in> set (commitPrefix c). \<not> isUpdate a \<and> \<not> isDeletion a"
  by (auto simp: commitPrefix_def)

lemma update_after_writers:
  assumes h: "fst (asyncUpdate c) = pre @ e # post" and u: "isUpdate e"
  shows "length (filter (\<lambda>x. x = QueuePutNone) pre) = workers c
       \<and> (\<forall>k < workers c. ThreadJoin k \<in> set pre)
       \<and> InputBlockFnReturned \<in> set pre"
proof -
  let ?rest = "[JobStoreUpdate (stagedFiles c)]
                     @ map JobStoreDelete (stagedJobs c)
                     @ map JobStoreDeleteFile (stagedFiles c)
                     @ (if length (stagedFiles c) > 0 then [JobStoreUpdate []] else [])
                     @ [UpdateSemaphoreRelease]"
  have ok: "\<not> blockFnRaises c" "\<not> terminateIsSet c"
    using asyncUpdate_fail[of c] h u by auto
  have eq: "commitPrefix c @ ?rest = pre @ e # post"
    using h asyncUpdate_ok[OF ok] by simp
  obtain pre' where pre: "pre = commitPrefix c @ pre'"
    using before_first[OF eq, of isUpdate] u commitPrefix_props by blast
  have cnt: "length (filter (\<lambda>x. x = QueuePutNone) (commitPrefix c)) = workers c"
    by (simp add: commitPrefix_def filter_map comp_def)
  have "pre' @ e # post = ?rest" using eq pre by simp
  then have "set pre' \<subseteq> set ?rest" by (metis Un_upper1 set_append)
  moreover have "QueuePutNone \<notin> set ?rest" by auto
  ultimately have "QueuePutNone \<notin> set pre'" by blast
  then have nolater: "filter (\<lambda>x. x = QueuePutNone) pre' = []"
    by (auto simp add: filter_empty_conv)
  show ?thesis using pre cnt nolater by (auto simp: commitPrefix_def)
qed

lemma deletion_after_update:
  assumes h: "fst (asyncUpdate c) = pre @ e # post" and d: "isDeletion e"
  shows "\<exists>u \<in> set pre. isUpdate u"
proof -
  have ok: "\<not> blockFnRaises c" "\<not> terminateIsSet c"
    using asyncUpdate_fail[of c] h d by auto
  let ?A = "commitPrefix c @ [JobStoreUpdate (stagedFiles c)]"
  from h asyncUpdate_ok[OF ok] obtain ys where eq: "?A @ ys = pre @ e # post"
    by (metis append.assoc)
  have "\<forall>a \<in> set ?A. \<not> isDeletion a" using commitPrefix_props by auto
  then obtain pre' where "pre = ?A @ pre'"
    using before_first[OF eq, of isDeletion] d by blast
  then show ?thesis by auto
qed

lemma commitClean_trace:
  "fst (asyncUpdate commitClean) =
     [QueuePutNone, QueuePutNone, ThreadJoin 0, ThreadJoin 1, InputBlockFnCalled,
      InputBlockFnReturned] @ JobStoreUpdate [7] # [JobStoreDelete 3,
      JobStoreDeleteFile 7, JobStoreUpdate [], UpdateSemaphoreRelease]"
  by (simp add: asyncUpdate_def commitClean_def Let_def upt_rec numeral_2_eq_2)

lemma commitClean_trace_deletion:
  "fst (asyncUpdate commitClean) =
     [QueuePutNone, QueuePutNone, ThreadJoin 0, ThreadJoin 1, InputBlockFnCalled,
      InputBlockFnReturned, JobStoreUpdate [7]] @ JobStoreDelete 3 # [
      JobStoreDeleteFile 7, JobStoreUpdate [], UpdateSemaphoreRelease]"
  by (simp add: commitClean_trace)

text \<open>
  C4. In the trace of \<^verbatim>\<open>asyncUpdate\<close> every \<^verbatim>\<open>jobStore.update\<close> comes after one
  \<^verbatim>\<open>None\<close> has been queued for each writer thread, every writer thread has been
  joined and the input block function has returned; when the terminate event is set
  there is no update at all; and every deletion of a wrapper or a file comes after an
  update.
\<close>

theorem update_only_after_writes_and_block:
  "(\<forall>pre e post. fst (asyncUpdate c) = pre @ e # post \<and> isUpdate e \<longrightarrow>
       length (filter (\<lambda>x. x = QueuePutNone) pre) = workers c
       \<and> (\<forall>k < workers c. ThreadJoin k \<in> set pre)
       \<and> InputBlockFnReturned \<in> set pre)
   \<and> (terminateIsSet c \<longrightarrow> (\<forall>e \<in> set (fst (asyncUpdate c)). \<not> isUpdate e))
   \<and> (\<forall>pre e post. fst (asyncUpdate c) = pre @ e # post \<and> isDeletion e \<longrightarrow>
         (\<exists>u \<in> set pre. isUpdate u))"
  using update_after_writers[of c] deletion_after_update[of c] asyncUpdate_fail[of c]
  by blast

theorem update_only_after_writes_and_block_witness:
  "(fst (asyncUpdate commitClean) =
      [QueuePutNone, QueuePutNone, ThreadJoin 0, ThreadJoin 1, InputBlockFnCalled,
       InputBlockFnReturned] @ JobStoreUpdate [7] # [JobStoreDelete 3,
       JobStoreDeleteFile 7, JobStoreUpdate [], UpdateSemaphoreRelease]
    \<and> isUpdate (JobStoreUpdate [7])
    \<and> length (filter (\<lambda>x. x = QueuePutNone)
         [QueuePutNone, QueuePutNone, ThreadJoin 0, ThreadJoin 1, InputBlockFnCalled,
          InputBlockFnReturned]) = workers commitClean)
   \<and> (terminateIsSet commitTerminated
      \<and> filter isUpdate (fst (asyncUpdate commitTerminated)) = [])
   \<and> (fst (asyncUpdate commitClean) =
        [QueuePutNone, QueuePutNone, ThreadJoin 0, ThreadJoin 1, InputBlockFnCalled,
         InputBlockFnReturned, JobStoreUpdate [7]] @ JobStoreDelete 3 # [
         JobStoreDeleteFile 7, JobStoreUpdate [], UpdateSemaphoreRelease]
      \<and> isDeletion (JobStoreDelete 3)
      \<and> (\<exists>u \<in> set [QueuePutNone, QueuePutNone, ThreadJoin 0, ThreadJoin 1,
            InputBlockFnCalled, InputBlockFnReturned, JobStoreUpdate [7]]. isUpdate u))"
proof -
  have t: "terminateIsSet commitTerminated" by (simp add: commitTerminated_def)
  have w: "workers commitClean = 2" by (simp add: commitClean_def)
  show ?thesis
    using update_only_after_writes_and_block[of commitClean]
      update_only_after_writes_and_block[of commitTerminated]
      commitClean_trace commitClean_trace_deletion t w
    by (simp add: filter_empty_conv)
qed

subsection \<open>Promises\<close>

lemma thenE_simps [simp]: "thenE (Inl e) f = Inl e" "thenE (Inr x) f = f x"
  by (simp_all add: thenE_def)


lemma reduce_allocates:
  assumes "promiseJobStore (snd st ! j)" "j < length (snd st)"
  shows "\<exists>st'. reduce st (rv j index) = Inr (st', (storeLocator (fst st), nextFileID (fst st)))
     \<and> storeFiles (fst st') = storeFiles (fst st) @ [(nextFileID (fst st), length (inodes (fst st)))]
     \<and> st_size (inodes (fst st') ! length (inodes (fst st))) = 0
     \<and> rvs (snd st' ! j) index = rvs (snd st ! j) index @ [nextFileID (fst st)]"
  using assms
  by (simp add: rv_def allocatePromiseFile_def getEmptyFileStoreID_def Let_def)

lemma allocate_files:
  "allocatePromiseFile st j index = Inr (st', r) \<Longrightarrow>
     length (storeFiles (fst st')) = Suc (length (storeFiles (fst st)))"
  by (auto simp: allocatePromiseFile_def getEmptyFileStoreID_def Let_def split: if_splits)

lemma promiseStep_files:
  "promiseStep st x = Inr st' \<Longrightarrow>
     length (storeFiles (fst st')) = length (storeFiles (fst st)) + (if isPickle x then 1 else 0)"
proof (cases x)
  case (CreatePromise j index)
  assume "promiseStep st x = Inr st'"
  with CreatePromise show ?thesis by simp
next
  case (PicklePromise p)
  assume a: "promiseStep st x = Inr st'"
  obtain j index where p: "p = Promise j index" by (cases p)
  from a PicklePromise p obtain r where "allocatePromiseFile st j index = Inr (st', r)"
    by (cases "allocatePromiseFile st j index") auto
  from allocate_files[OF this] PicklePromise show ?thesis by simp
qed

lemma promiseSteps_files:
  "promiseSteps st xs = Inr st' \<Longrightarrow>
     length (storeFiles (fst st')) = length (storeFiles (fst st)) + length (filter isPickle xs)"
proof (induction xs arbitrary: st)
  case Nil
  then show ?case by simp
next
  case (Cons x xs)
  then obtain st1 where s1: "promiseStep st x = Inr st1" and s2: "promiseSteps st1 xs = Inr st'"
    by (cases "promiseStep st x") auto
  from promiseStep_files[OF s1] Cons.IH[OF s2] show ?case by simp
qed

text \<open>
  C6. Pickling a promise bound to \<open>(j, index)\<close>, for a job whose
  \<^verbatim>\<open>_promiseJobStore\<close> is set, allocates exactly one new file in the job store, of
  size zero, and appends its ID to \<^verbatim>\<open>_rvs[index]\<close> of the job. In any sequence of
  promise creations and picklings that goes through, the job store grows by as many
  files as promises were pickled: a promise that is only created allocates nothing.
\<close>

theorem pickling_allocates_one_placeholder:
  "(promiseJobStore (snd st ! j) \<and> j < length (snd st) \<longrightarrow>
      (\<exists>st'. reduce st (rv j index) = Inr (st', (storeLocator (fst st), nextFileID (fst st)))
        \<and> storeFiles (fst st') = storeFiles (fst st) @ [(nextFileID (fst st), length (inodes (fst st)))]
        \<and> st_size (inodes (fst st') ! length (inodes (fst st))) = 0
        \<and> rvs (snd st' ! j) index = rvs (snd st ! j) index @ [nextFileID (fst st)]))
   \<and> (promiseSteps st xs = Inr st2 \<longrightarrow>
        length (storeFiles (fst st2)) = length (storeFiles (fst st)) + length (filter isPickle xs))"
  using reduce_allocates[of st j index] promiseSteps_files[of st xs st2] by blast

theorem pickling_allocates_one_placeholder_witness:
  "promiseJobStore (snd promising0 ! 0) \<and> 0 < length (snd promising0)
   \<and> (\<exists>st'. reduce promising0 (rv 0 (Some 1)) = Inr (st', (''aws:us-west-2:store'', 0))
        \<and> storeFiles (fst st') = [(0, 1)]
        \<and> st_size (inodes (fst st') ! 1) = 0
        \<and> rvs (snd st' ! 0) (Some 1) = [0])
   \<and> (\<exists>st2. promiseSteps promising0
          [CreatePromise 0 None, PicklePromise (rv 0 (Some 1)), CreatePromise 0 (Some 2)] = Inr st2
        \<and> length (storeFiles (fst st2)) = 1)"
proof -
  have h: "promiseJobStore (snd promising0 ! 0) \<and> 0 < length (snd promising0)"
    by (simp add: promising0_def)
  have v: "storeLocator (fst promising0) = ''aws:us-west-2:store''"
    "nextFileID (fst promising0) = 0" "storeFiles (fst promising0) = []"
    "length (inodes (fst promising0)) = 1" "rvs (snd promising0 ! 0) (Some 1) = []"
    by (simp_all add: promising0_def world0_def)
  have "\<exists>st2. promiseSteps promising0
          [CreatePromise 0 None, PicklePromise (rv 0 (Some 1)), CreatePromise 0 (Some 2)] = Inr st2"
    by (simp add: promising0_def world0_def rv_def allocatePromiseFile_def
        getEmptyFileStoreID_def Let_def)
  then obtain st2 where s: "promiseSteps promising0
          [CreatePromise 0 None, PicklePromise (rv 0 (Some 1)), CreatePromise 0 (Some 2)] = Inr st2"
    by blast
  from pickling_allocates_one_placeholder[of promising0 0 "Some 1"
      "[CreatePromise 0 None, PicklePromise (rv 0 (Some 1)), CreatePromise 0 (Some 2)]" st2] h v s
  show ?thesis by (simp add: rv_def)
qed

subsection \<open>Files staged for deletion\<close>










subsection \<open>The caching invariant\<close>

lemma sameCache_refl [simp]: "sameCache w w"
  by (simp add: sameCache_def)










lemma getEmptyFileStoreID_same: "getEmptyFileStoreID w = (w', f) \<Longrightarrow> sameCache w w'"
  by (auto simp: getEmptyFileStoreID_def sameCache_def)

lemma isBalanced_setJobState [simp]: "isBalanced (setJobState c h js) = isBalanced c"
  by (simp add: isBalanced_def setJobState_def)

lemma cacheWrite_balanced:
  "balancedHistory w \<Longrightarrow> isBalanced c \<Longrightarrow> balancedHistory (cacheWrite w c)"
  by (simp add: balancedHistory_def cacheWrite_def)






lemma balancedHistory_cong:
  "cacheStateFile w' = cacheStateFile w \<Longrightarrow> commits w' = commits w \<Longrightarrow>
     balancedHistory w' = balancedHistory w"
  by (simp add: balancedHistory_def)



















end
